theory Spec2Isabelle
  imports Main "HOL-Library.Sublist" "HOL-Library.Multiset"
begin

section \<open>Characters and strings of the cleaner\<close>

text \<open>
  Texts are Python \<open>str\<close> values; they are modelled as \<open>string\<close> (lists of 8-bit
  characters) and read as ASCII: a character above 127 is neither a word character nor a
  space in this model. Three characters cannot be written inside a string literal and get
  a name.
\<close>

abbreviation bsl :: char where "bsl \<equiv> CHR 0x5C"
abbreviation nl :: char where "nl \<equiv> CHR 0x0A"
abbreviation tab :: char where "tab \<equiv> CHR 0x09"

text \<open>\<open>str.find\<close>: the index of the first occurrence of \<open>sub\<close>, \<open>None\<close> for Python's -1.
  \<open>sub in s\<close> is \<open>str_find sub s \<noteq> None\<close>, and \<open>s.index(sub)\<close> is the index when there is
  one.\<close>

fun str_find :: "string \<Rightarrow> string \<Rightarrow> nat option" where
  "str_find sub [] = (if sub = [] then Some 0 else None)"
| "str_find sub (c # cs) =
     (if prefix sub (c # cs) then Some 0 else map_option Suc (str_find sub cs))"

section \<open>\<open>_strip_tex_contents\<close>: truncation after the end marker\<close>

text \<open>
  \<^verbatim>\<open>
  def _strip_tex_contents(lines, end_str):
    for i in range(len(lines)):
      if end_str in lines[i]:
        if '%' not in lines[i]:
          return lines[: i + 1]
        elif lines[i].index('%') > lines[i].index(end_str):
          return lines[: i + 1]
    return lines
  \<close>
  The loop over \<open>range(len(lines))\<close> is the recursion on the index \<open>i\<close>.
\<close>

function strip_tex_loop :: "string list \<Rightarrow> string \<Rightarrow> nat \<Rightarrow> string list" where
  "strip_tex_loop lines end_str i =
     (if i < length lines then
        (case str_find end_str (lines ! i) of
           None \<Rightarrow> strip_tex_loop lines end_str (Suc i)
         | Some k \<Rightarrow>
            (case str_find ''%'' (lines ! i) of
               None \<Rightarrow> take (Suc i) lines
             | Some p \<Rightarrow>
                 if p > k then take (Suc i) lines
                 else strip_tex_loop lines end_str (Suc i)))
      else lines)"
  by pat_completeness auto
termination
  by (relation "measure (\<lambda>(lines, end_str, i). length lines - i)") auto

declare strip_tex_loop.simps [simp del]

definition strip_tex_contents :: "string list \<Rightarrow> string \<Rightarrow> string list" where
  "strip_tex_contents lines end_str = strip_tex_loop lines end_str 0"

text \<open>The two readings of "the marker is not commented out on this line". The first is
  the specification's: the line contains the marker and has no \<open>%\<close> at an index smaller
  than the marker's first occurrence. The second also excludes a \<open>%\<close> at the very index
  where the marker starts.\<close>

definition marker_uncommented_before :: "string \<Rightarrow> string \<Rightarrow> bool" where
  "marker_uncommented_before end_str line =
     (case str_find end_str line of
        None \<Rightarrow> False
      | Some k \<Rightarrow> CHR ''%'' \<notin> set (take k line))"

definition marker_uncommented :: "string \<Rightarrow> string \<Rightarrow> bool" where
  "marker_uncommented end_str line =
     (case str_find end_str line of
        None \<Rightarrow> False
      | Some k \<Rightarrow> CHR ''%'' \<notin> set (take (Suc k) line))"

section \<open>Character classes\<close>

text \<open>
  \<open>\w\<close> of the regular expressions is \<open>is_word\<close>, \<open>\s\<close> is \<open>re_space\<close> (the characters with the
  White_Space property, in ASCII: tab, newline, vertical tab, form feed, carriage return
  and space), and \<open>str.isspace\<close> and the argument-free \<open>str.lstrip()\<close> use \<open>py_isspace\<close>, which
  also holds of the four separators 0x1C to 0x1F. The three definitions are the classes
  of Python on ASCII characters only: beyond ASCII, \<open>\w\<close> also holds of letters such as
  e-acute, and \<open>\s\<close> and \<open>str.isspace\<close> of U+0085 and U+00A0. A theorem whose truth
  depends on these classes is therefore stated for ASCII texts, \<open>ascii s\<close>: every character
  of \<open>s\<close> has a code below 128, that is, its highest bit is not set.
\<close>

definition is_word :: "char \<Rightarrow> bool" where
  "is_word c \<longleftrightarrow>
     c \<in> set ''abcdefghijklmnopqrstuvwxyzABCDEFGHIJKLMNOPQRSTUVWXYZ0123456789_''"

definition re_space :: "char \<Rightarrow> bool" where
  "re_space c \<longleftrightarrow> c \<in> {tab, nl, CHR 0x0B, CHR 0x0C, CHR 0x0D, CHR '' ''}"

definition py_isspace :: "char \<Rightarrow> bool" where
  "py_isspace c \<longleftrightarrow>
     c \<in> {tab, nl, CHR 0x0B, CHR 0x0C, CHR 0x0D, CHR 0x1C, CHR 0x1D, CHR 0x1E, CHR 0x1F,
          CHR '' ''}"

definition is_ascii :: "char \<Rightarrow> bool" where
  "is_ascii c \<longleftrightarrow> \<not> digit7 c"

definition ascii :: "string \<Rightarrow> bool" where
  "ascii s \<longleftrightarrow> list_all is_ascii s"

section \<open>\<open>_remove_comments_inline\<close>: the per-line comment stripper\<close>

text \<open>
  \<^verbatim>\<open>
  def _remove_comments_inline(text):
    auto_ignore_pattern = r'(%\s*auto-ignore).*'
    if regex.search(auto_ignore_pattern, text):
      return regex.sub(auto_ignore_pattern, r'\1', text)
    if text.lstrip(' ').lstrip('\t').startswith('%'):
      return ''
    url_pattern = r'\\url\{(?>[^{}]|(?R))*\}'
    def remove_comments(segment):
      if segment.lstrip().startswith('%'):
        return '', True
      match = regex.search(r'(?<!\\)%', segment)
      if match:
        return segment[: match.end()] + '\n', True
      else:
        return segment, False
    segments = regex.split(f'({url_pattern})', text)
    for i in range(len(segments)):
      if not regex.match(url_pattern, segments[i]):
        segments[i], match = remove_comments(segments[i])
        if match:
          segments = segments[: i + 1]
          break
    final_text = ''.join(segments)
    return (final_text
            if final_text.endswith('\n') or final_text.endswith('\\n')
            else final_text + '\n')
  \<close>
  Each regular expression is modelled by the function that matches it at the head of a
  string, returning what the code reads from the match and the text after the match.

  \<open>auto_ignore_at\<close> matches \<open>(%\s*auto-ignore).*\<close>: a \<open>%\<close>, the longest run of spaces (the next
  pattern character \<open>a\<close> is no space, so giving spaces back cannot help), the literal, and
  every character up to the next newline. It returns group 1 and the rest.
\<close>

definition auto_ignore_at :: "string \<Rightarrow> (string \<times> string) option" where
  "auto_ignore_at s =
     (case s of
        [] \<Rightarrow> None
      | c # cs \<Rightarrow>
          if c = CHR ''%'' \<and> prefix ''auto-ignore'' (dropWhile re_space cs)
          then Some (c # takeWhile re_space cs @ ''auto-ignore'',
                     dropWhile (\<lambda>x. x \<noteq> nl) (drop 11 (dropWhile re_space cs)))
          else None)"

text \<open>\<open>regex.search\<close>: is there a match at some position.\<close>

fun auto_ignore_search :: "string \<Rightarrow> bool" where
  "auto_ignore_search [] = False"
| "auto_ignore_search (c # cs) = (auto_ignore_at (c # cs) \<noteq> None \<or> auto_ignore_search cs)"

lemma auto_ignore_at_shorter:
  "auto_ignore_at (c # cs) = Some (g, rest) \<Longrightarrow> length rest \<le> length cs"
proof -
  assume "auto_ignore_at (c # cs) = Some (g, rest)"
  then have "rest = dropWhile (\<lambda>x. x \<noteq> nl) (drop 11 (dropWhile re_space cs))"
    by (auto simp: auto_ignore_at_def split: if_splits)
  moreover have "length (dropWhile (\<lambda>x. x \<noteq> nl) (drop 11 (dropWhile re_space cs)))
                  \<le> length (drop 11 (dropWhile re_space cs))"
    by (rule length_dropWhile_le)
  moreover have "length (dropWhile re_space cs) \<le> length cs"
    by (rule length_dropWhile_le)
  ultimately show ?thesis by simp
qed

text \<open>\<open>regex.sub(auto_ignore_pattern, r'\1', text)\<close>: every match, leftmost first and
  without overlap, is replaced by its group 1.\<close>

function auto_ignore_sub :: "string \<Rightarrow> string" where
  "auto_ignore_sub [] = []"
| "auto_ignore_sub (c # cs) =
     (case auto_ignore_at (c # cs) of
        Some (g, rest) \<Rightarrow> g @ auto_ignore_sub rest
      | None \<Rightarrow> c # auto_ignore_sub cs)"
  by pat_completeness auto
termination
  by (relation "measure length") (auto dest: auto_ignore_at_shorter)

text \<open>
  \<open>url_at\<close> matches \<open>\\url\{(?>[^{}]|(?R))*\}\<close> at the head of a string. Each round of the
  star is an atomic group that tries \<open>[^{}]\<close> first; a backslash is such a character, so
  the recursive alternative \<open>(?R)\<close>, which has to start with a backslash, is only tried
  where the next character is a brace or the text ends, and fails there. The star
  therefore takes the longest run of non-brace characters, and giving rounds back cannot
  help, because the closing \<open>\}\<close> does not match a non-brace character. It returns the
  matched span and the rest.
\<close>

definition url_open :: string where "url_open = bsl # ''url{''"

definition url_at :: "string \<Rightarrow> (string \<times> string) option" where
  "url_at s =
     (if prefix url_open s then
        (case dropWhile (\<lambda>c. c \<noteq> CHR ''{'' \<and> c \<noteq> CHR ''}'') (drop 5 s) of
           [] \<Rightarrow> None
         | c # rest \<Rightarrow>
             if c = CHR ''}''
             then Some (url_open
                          @ takeWhile (\<lambda>c. c \<noteq> CHR ''{'' \<and> c \<noteq> CHR ''}'') (drop 5 s) @ ''}'',
                        rest)
             else None)
      else None)"

lemma url_at_shorter: "url_at (c # cs) = Some (m, rest) \<Longrightarrow> length rest < length (c # cs)"
proof -
  let ?P = "\<lambda>c. c \<noteq> CHR ''{'' \<and> c \<noteq> CHR ''}''"
  assume "url_at (c # cs) = Some (m, rest)"
  then obtain x where "dropWhile ?P (drop 5 (c # cs)) = x # rest"
    by (auto simp: url_at_def split: if_splits list.splits)
  moreover have "length (dropWhile ?P (drop 5 (c # cs))) \<le> length (drop 5 (c # cs))"
    by (rule length_dropWhile_le)
  ultimately show ?thesis by simp
qed

text \<open>\<open>regex.split(f'({url_pattern})', text)\<close>: the text between the matches, with the
  matched spans (the capture group) in between. The result is never empty.\<close>

function url_split :: "string \<Rightarrow> string list" where
  "url_split [] = [[]]"
| "url_split (c # cs) =
     (case url_at (c # cs) of
        Some (m, rest) \<Rightarrow> [] # m # url_split rest
      | None \<Rightarrow> (case url_split cs of
                   [] \<Rightarrow> [[c]]
                 | seg # segs \<Rightarrow> (c # seg) # segs))"
  by pat_completeness auto
termination
  by (relation "measure length") (auto dest: url_at_shorter)

text \<open>\<open>regex.search(r'(?<!\\)%', segment)\<close>: the end index of the first \<open>%\<close> that has no
  backslash right before it; \<open>esc\<close> says whether the previous character is a backslash.\<close>

fun find_unescaped_percent :: "bool \<Rightarrow> string \<Rightarrow> nat option" where
  "find_unescaped_percent esc [] = None"
| "find_unescaped_percent esc (c # cs) =
     (if c = CHR ''%'' \<and> \<not> esc then Some (Suc 0)
      else map_option Suc (find_unescaped_percent (c = bsl) cs))"

definition remove_comments :: "string \<Rightarrow> string \<times> bool" where
  "remove_comments segment =
     (if prefix ''%'' (dropWhile py_isspace segment) then ([], True)
      else (case find_unescaped_percent False segment of
              Some e \<Rightarrow> (take e segment @ [nl], True)
            | None \<Rightarrow> (segment, False)))"

text \<open>The loop over the segments: a segment at whose head \<open>url_pattern\<close> matches
  (\<open>regex.match\<close>) is kept; any other is passed to \<open>remove_comments\<close>, and the first one
  with a comment ends the list.\<close>

fun strip_segments :: "string list \<Rightarrow> string list" where
  "strip_segments [] = []"
| "strip_segments (seg # rest) =
     (if url_at seg \<noteq> None then seg # strip_segments rest
      else (case remove_comments seg of
              (s, True) \<Rightarrow> [s]
            | (s, False) \<Rightarrow> s # strip_segments rest))"

definition remove_comments_inline :: "string \<Rightarrow> string" where
  "remove_comments_inline text =
     (if auto_ignore_search text then auto_ignore_sub text
      else if prefix ''%'' (dropWhile (\<lambda>c. c = tab) (dropWhile (\<lambda>c. c = CHR '' '') text))
      then []
      else (let final_text = concat (strip_segments (url_split text))
            in if suffix [nl] final_text \<or> suffix [bsl, CHR ''n''] final_text
               then final_text else final_text @ [nl]))"


section \<open>\<open>_search_reference\<close>: the asset reference matcher\<close>

text \<open>
  \<^verbatim>\<open>
  def _search_reference(filename, contents, strict=False):
    if strict:
      filename_regex = filename.replace('.', r'\.')
    else:
      filename_path = pathlib.Path(filename)
      root, extension = filename_path.stem, filename_path.suffix
      basename_regex = '{}({})?'.format(regex.escape(root), regex.escape(extension))
      path_prefix_regex = ''
      for fragment in reversed(filename_path.parents):
        if fragment.name == '.':
          continue
        fragment = regex.escape(fragment.name)
        path_prefix_regex = '({}{}{})?'.format(path_prefix_regex, fragment, os.sep)
      filename_regex = path_prefix_regex + basename_regex
    filename_regex = r'(.' + os.sep + r')?' + filename_regex
    patn = r'\{{[\s%]*{}[\s%]*\}}'.format(filename_regex)
    if strict:
      patn = r'(\{{)?[\s%]*{}[\s%]*(\}})?'.format(filename_regex)
    return regex.search(patn, contents, regex.IGNORECASE)
  \<close>
  The pattern is assembled as a string and handed to the regular-expression library. The
  model assembles the same pattern as a term of the type \<open>rx\<close>, which has the five
  constructs the pattern is made of: escaped literal text, the dot, the class star
  \<open>[\s%]*\<close>, an optional group and concatenation. \<open>rx_match r s\<close> lists the texts that can
  remain after a match of \<open>r\<close> at the head of \<open>s\<close>; \<open>regex.search\<close> returns a match object
  exactly when some position has a match, which is \<open>rx_search\<close>. Literal text is compared
  with the case of ASCII letters folded, as \<open>regex.IGNORECASE\<close> does on ASCII.
\<close>

datatype rx = Lit string | AnyChar | WsPct | Opt rx | Seq rx rx

definition fold_case :: "char \<Rightarrow> nat" where
  "fold_case c = (let n = of_char c in if 65 \<le> n \<and> n \<le> 90 then n + 32 else n)"

fun lit_match :: "string \<Rightarrow> string \<Rightarrow> string option" where
  "lit_match [] s = Some s"
| "lit_match (c # cs) [] = None"
| "lit_match (c # cs) (d # ds) =
     (if fold_case c = fold_case d then lit_match cs ds else None)"

fun ws_pct_ends :: "string \<Rightarrow> string list" where
  "ws_pct_ends [] = [[]]"
| "ws_pct_ends (c # cs) =
     (if re_space c \<or> c = CHR ''%'' then ws_pct_ends cs @ [c # cs] else [c # cs])"

fun rx_match :: "rx \<Rightarrow> string \<Rightarrow> string list" where
  "rx_match (Lit l) s = (case lit_match l s of None \<Rightarrow> [] | Some r \<Rightarrow> [r])"
| "rx_match AnyChar s = (case s of [] \<Rightarrow> [] | c # cs \<Rightarrow> if c = nl then [] else [cs])"
| "rx_match WsPct s = ws_pct_ends s"
| "rx_match (Opt r) s = rx_match r s @ [s]"
| "rx_match (Seq a b) s = concat (map (rx_match b) (rx_match a s))"

fun rx_search :: "rx \<Rightarrow> string \<Rightarrow> bool" where
  "rx_search r [] = (rx_match r [] \<noteq> [])"
| "rx_search r (c # cs) = (if rx_match r (c # cs) \<noteq> [] then True else rx_search r cs)"

text \<open>
  \<open>pathlib.Path(filename)\<close> on a POSIX system: the parts of the path are its components
  between slashes, without the empty ones and the single dots. \<open>name\<close> is the last part,
  \<open>suffix\<close> is \<open>name[i:]\<close> for the last dot \<open>i\<close> of the name when \<open>0 < i < len(name) - 1\<close>
  and empty otherwise, and \<open>stem\<close> is the name without the suffix. \<open>parents\<close>, reversed,
  runs from the outermost ancestor, \<open>Path('.')\<close> or the root, whose \<open>name\<close> is the empty
  string, through the directories of the path; \<open>parent_names_reversed\<close> lists their
  \<open>name\<close>s in that order.
\<close>

fun split_on :: "char \<Rightarrow> string \<Rightarrow> string list" where
  "split_on d [] = [[]]"
| "split_on d (c # cs) =
     (if c = d then [] # split_on d cs
      else (case split_on d cs of [] \<Rightarrow> [[c]] | p # ps \<Rightarrow> (c # p) # ps))"

definition str_rfind :: "string \<Rightarrow> string \<Rightarrow> nat option" where
  "str_rfind sub s =
     (case str_find (rev sub) (rev s) of
        None \<Rightarrow> None
      | Some k \<Rightarrow> Some (length s - length sub - k))"

definition path_parts :: "string \<Rightarrow> string list" where
  "path_parts filename = filter (\<lambda>p. p \<noteq> [] \<and> p \<noteq> ''.'') (split_on CHR ''/'' filename)"

definition path_name :: "string \<Rightarrow> string" where
  "path_name filename = (case path_parts filename of [] \<Rightarrow> [] | p # ps \<Rightarrow> last (p # ps))"

definition path_suffix :: "string \<Rightarrow> string" where
  "path_suffix filename =
     (let name = path_name filename in
      case str_rfind ''.'' name of
        None \<Rightarrow> []
      | Some i \<Rightarrow> if 0 < i \<and> i < length name - 1 then drop i name else [])"

definition path_stem :: "string \<Rightarrow> string" where
  "path_stem filename =
     (let name = path_name filename in
      case str_rfind ''.'' name of
        None \<Rightarrow> name
      | Some i \<Rightarrow> if 0 < i \<and> i < length name - 1 then take i name else name)"

definition parent_names_reversed :: "string \<Rightarrow> string list" where
  "parent_names_reversed filename =
     (case path_parts filename of [] \<Rightarrow> [] | p # ps \<Rightarrow> [] # butlast (p # ps))"

definition os_sep :: string where "os_sep = ''/''"

text \<open>The loop over the reversed parents; \<open>acc\<close> is \<open>path_prefix_regex\<close> so far, and the
  empty pattern is \<open>Lit []\<close>.\<close>

fun path_prefix_regex :: "rx \<Rightarrow> string list \<Rightarrow> rx" where
  "path_prefix_regex acc [] = acc"
| "path_prefix_regex acc (fragment # fragments) =
     (if fragment = ''.'' then path_prefix_regex acc fragments
      else path_prefix_regex (Opt (Seq acc (Seq (Lit fragment) (Lit os_sep)))) fragments)"

text \<open>In strict mode the file name enters the pattern with only its dots escaped. The
  model reads the name as literal text: this is what the pattern means when the name has
  no other metacharacter of regular expressions.\<close>

definition filename_regex :: "string \<Rightarrow> bool \<Rightarrow> rx" where
  "filename_regex filename strict =
     (if strict then Lit filename
      else Seq (path_prefix_regex (Lit []) (parent_names_reversed filename))
               (Seq (Lit (path_stem filename)) (Opt (Lit (path_suffix filename)))))"

definition reference_pattern :: "string \<Rightarrow> bool \<Rightarrow> rx" where
  "reference_pattern filename strict =
     (let f = Seq (Opt (Seq AnyChar (Lit os_sep))) (filename_regex filename strict)
      in if strict
         then Seq (Opt (Lit ''{'')) (Seq WsPct (Seq f (Seq WsPct (Opt (Lit ''}'')))))
         else Seq (Lit ''{'') (Seq WsPct (Seq f (Seq WsPct (Lit ''}'')))))"

definition search_reference :: "string \<Rightarrow> string \<Rightarrow> bool \<Rightarrow> bool" where
  "search_reference filename contents strict =
     rx_search (reference_pattern filename strict) contents"

section \<open>\<open>_keep_only_referenced_tex\<close>: the reference closure\<close>

text \<open>
  \<^verbatim>\<open>
  def _keep_only_referenced_tex(contents, splits, start_with=None):
    old_referenced = set(splits['tex_in_root'] + splits['tex_not_in_root'])
    prev_referenced = {}
    referenced = {start_with} if start_with is not None else set(splits['tex_in_root'])
    next_referenced = referenced.copy()
    while True:
      for fn in old_referenced:
        for fn2 in referenced:
          if regex.search(
              r'(?<!\w)(' + os.path.splitext(fn)[0] + r'[.}])', '\n'.join(contents[fn2])
          ):
            next_referenced.add(fn)
      if referenced == next_referenced:
        splits['tex_to_copy'] = list(referenced)
        return
      referenced = next_referenced.copy()
  \<close>
  Exceptions of the Python code are values of \<open>py_error\<close>.
\<close>

datatype py_error = KeyError | TypeError | RuntimeError | ValueError

text \<open>\<open>os.path.splitext\<close> on a POSIX system: with \<open>sepIndex\<close> and \<open>dotIndex\<close> the last
  slash and the last dot of the path (-1 when there is none), the path is split at the
  last dot when that dot comes after the last slash and some character between the two
  is not a dot; otherwise the extension is empty.\<close>

definition rfind_index :: "char \<Rightarrow> string \<Rightarrow> int" where
  "rfind_index c p = (case str_rfind [c] p of None \<Rightarrow> - 1 | Some i \<Rightarrow> int i)"

definition splitext :: "string \<Rightarrow> string \<times> string" where
  "splitext p =
     (let sepIndex = rfind_index CHR ''/'' p;
          dotIndex = rfind_index CHR ''.'' p
      in if dotIndex > sepIndex
            \<and> list_ex (\<lambda>c. c \<noteq> CHR ''.'') (drop (nat (sepIndex + 1)) (take (nat dotIndex) p))
         then (take (nat dotIndex) p, drop (nat dotIndex) p)
         else (p, []))"

text \<open>
  The search pattern is \<open>(?<!\w)(\<close> + stem + \<open>[.}])\<close>, where the stem, the path without
  its extension, is spliced in unescaped. \<open>stem_at\<close> matches the stem at the head of a
  text: a dot of the stem stands for any character but a newline, and every other
  character for itself, which is what the pattern means when the stem has no other
  metacharacter of regular expressions. \<open>reference_at\<close> adds the class \<open>[.}]\<close>, and
  \<open>reference_search\<close> is \<open>regex.search\<close>: it tries every position, \<open>after_word\<close> telling
  whether the character before the position is a word character (the lookbehind).

  A stem with another metacharacter is outside this model: the library then compiles a
  pattern with operators (\<open>a+b\<close> does not match the text \<open>a+b\<close>) or raises \<open>regex.error\<close>
  (\<open>a(b\<close>), and the model follows neither. The theorems about what is matched, and about
  the closure returning a result, are stated for stems that are \<open>regex_plain\<close>: ASCII
  texts without any of the characters \<open>\ . ^ $ * + ? { } [ ] | ( )\<close>.
\<close>

definition regex_special :: "char \<Rightarrow> bool" where
  "regex_special c \<longleftrightarrow> c \<in> set (bsl # ''.^$*+?{}[]|()'')"

definition regex_plain :: "string \<Rightarrow> bool" where
  "regex_plain s \<longleftrightarrow> list_all (\<lambda>c. is_ascii c \<and> \<not> regex_special c) s"

fun stem_at :: "string \<Rightarrow> string \<Rightarrow> string option" where
  "stem_at [] s = Some s"
| "stem_at (p # ps) [] = None"
| "stem_at (p # ps) (c # cs) =
     (if (if p = CHR ''.'' then c \<noteq> nl else c = p) then stem_at ps cs else None)"

definition reference_at :: "string \<Rightarrow> string \<Rightarrow> bool" where
  "reference_at stem s =
     (case stem_at stem s of
        None \<Rightarrow> False
      | Some [] \<Rightarrow> False
      | Some (d # rest) \<Rightarrow> d = CHR ''.'' \<or> d = CHR ''}'')"

fun reference_search :: "bool \<Rightarrow> string \<Rightarrow> string \<Rightarrow> bool" where
  "reference_search after_word stem [] = False"
| "reference_search after_word stem (c # cs) =
     (if \<not> after_word \<and> reference_at stem (c # cs) then True
      else reference_search (is_word c) stem cs)"

text \<open>\<open>'\n'.join(lines)\<close>.\<close>

fun join_lines :: "string list \<Rightarrow> string" where
  "join_lines [] = []"
| "join_lines [l] = l"
| "join_lines (l # ls) = l @ nl # join_lines ls"

type_synonym contents = "string \<rightharpoonup> string list"

definition mentions :: "contents \<Rightarrow> string \<Rightarrow> string \<Rightarrow> bool" where
  "mentions contents fn2 fn =
     (case contents fn2 of
        None \<Rightarrow> False
      | Some ls \<Rightarrow> reference_search False (fst (splitext fn)) (join_lines ls))"

text \<open>
  The inner loop \<open>for fn2 in referenced\<close> runs over a Python set, modelled as a set. It
  has no \<open>break\<close>, so it reads \<open>contents[fn2]\<close> for every member: a member without
  contents raises \<open>KeyError\<close>, and otherwise \<open>fn\<close> is added when some member mentions it.
  The outer loop \<open>for fn in old_referenced\<close> is \<open>closure_pass\<close>, over the files in the order
  in which the set \<open>old_referenced\<close> happens to be enumerated.
\<close>

definition scan_referenced :: "contents \<Rightarrow> string set \<Rightarrow> string \<Rightarrow> py_error + bool" where
  "scan_referenced contents referenced fn =
     (if \<exists>fn2\<in>referenced. contents fn2 = None then Inl KeyError
      else Inr (\<exists>fn2\<in>referenced. mentions contents fn2 fn))"

fun closure_pass ::
  "contents \<Rightarrow> string set \<Rightarrow> string list \<Rightarrow> string set \<Rightarrow> py_error + string set" where
  "closure_pass contents referenced [] next_referenced = Inr next_referenced"
| "closure_pass contents referenced (fn # fns) next_referenced =
     (case scan_referenced contents referenced fn of
        Inl e \<Rightarrow> Inl e
      | Inr found \<Rightarrow>
          closure_pass contents referenced fns
            (if found then insert fn next_referenced else next_referenced))"

lemma closure_pass_eq:
  "closure_pass contents R fs N =
     (if fs \<noteq> [] \<and> (\<exists>r\<in>R. contents r = None) then Inl KeyError
      else Inr (N \<union> {f \<in> set fs. \<exists>r\<in>R. mentions contents r f}))"
  by (induction fs arbitrary: N) (auto simp: scan_referenced_def)

text \<open>The \<open>while True\<close> loop. \<open>passes\<close> counts the passes made so far; it is not in the
  source and does not influence the result.\<close>

function closure_loop ::
  "contents \<Rightarrow> string list \<Rightarrow> string set \<Rightarrow> nat \<Rightarrow> py_error + string set \<times> nat" where
  "closure_loop contents fs referenced passes =
     (case closure_pass contents referenced fs referenced of
        Inl e \<Rightarrow> Inl e
      | Inr next_referenced \<Rightarrow>
          if referenced = next_referenced then Inr (referenced, Suc passes)
          else closure_loop contents fs next_referenced (Suc passes))"
  by pat_completeness auto
termination
proof (relation "measure (\<lambda>(contents, fs, referenced, passes). card (set fs - referenced))")
  show "wf (measure (\<lambda>(contents, fs, referenced, passes). card (set fs - referenced)))"
    by simp
next
  fix contents :: contents and fs referenced passes next_referenced
  assume p: "closure_pass contents referenced fs referenced = Inr next_referenced"
    and ne: "referenced \<noteq> next_referenced"
  from p have n: "next_referenced = referenced \<union> {f \<in> set fs. \<exists>r\<in>referenced. mentions contents r f}"
    by (simp add: closure_pass_eq split: if_splits)
  with ne obtain x where x: "x \<in> set fs" "x \<notin> referenced" "x \<in> next_referenced"
    by auto
  have "set fs - next_referenced \<subset> set fs - referenced"
    using n x by auto
  then have "card (set fs - next_referenced) < card (set fs - referenced)"
    by (intro psubset_card_mono) simp_all
  then show "((contents, fs, next_referenced, Suc passes), (contents, fs, referenced, passes))
      \<in> measure (\<lambda>(contents, fs, referenced, passes). card (set fs - referenced))"
    by simp
qed

declare closure_loop.simps [simp del]




text \<open>The specification's reading of the name searched for: the basename of the file
  (\<open>os.path.basename\<close>) without its extension.\<close>

definition basename :: "string \<Rightarrow> string" where
  "basename p = (case str_rfind ''/'' p of None \<Rightarrow> p | Some i \<Rightarrow> drop (Suc i) p)"

definition basename_without_extension :: "string \<Rightarrow> string" where
  "basename_without_extension f = fst (splitext (basename f))"

section \<open>\<open>_simplify_conditional_blocks\<close>: the conditional resolver\<close>

text \<open>
  \<^verbatim>\<open>
  p = regex.compile(r'(?!(?<=\\newif\s*))\\if\s*(\w+)|\\else(?!\w)|\\fi(?!\w)')
  \<close>
  A match object is modelled by what the code reads from it: \<open>start()\<close>, \<open>end()\<close> and
  \<open>group()\<close>. \<open>token_at rbefore s\<close> is the length of the match of \<open>p\<close> at a position, where
  \<open>s\<close> is the text from the position on and \<open>rbefore\<close> the text before it, reversed. The
  first alternative needs that the text before the position does not end with \<open>\newif\<close>
  and spaces, then \<open>\if\<close>, the longest run of spaces and the longest, non-empty run of
  word characters (spaces and word characters are disjoint, so giving characters back
  cannot help); the other two are \<open>\else\<close> and \<open>\fi\<close> not followed by a word character.
  \<open>finditer\<close> lists the matches from left to right, each search starting where the last
  match ended.
\<close>

datatype re_match = Match (m_start: nat) (m_end: nat) (m_group: string)

definition after_newif :: "string \<Rightarrow> bool" where
  "after_newif rbefore \<longleftrightarrow> prefix (rev (bsl # ''newif'')) (dropWhile re_space rbefore)"

definition if_at :: "string \<Rightarrow> string \<Rightarrow> nat option" where
  "if_at rbefore s =
     (if \<not> after_newif rbefore \<and> prefix (bsl # ''if'') s then
        (let ws = takeWhile re_space (drop 3 s);
             w = takeWhile is_word (dropWhile re_space (drop 3 s))
         in if w \<noteq> [] then Some (3 + length ws + length w) else None)
      else None)"

definition else_at :: "string \<Rightarrow> nat option" where
  "else_at s =
     (if prefix (bsl # ''else'') s
         \<and> (case drop 5 s of [] \<Rightarrow> True | c # cs \<Rightarrow> \<not> is_word c)
      then Some 5 else None)"

definition fi_at :: "string \<Rightarrow> nat option" where
  "fi_at s =
     (if prefix (bsl # ''fi'') s
         \<and> (case drop 3 s of [] \<Rightarrow> True | c # cs \<Rightarrow> \<not> is_word c)
      then Some 3 else None)"

definition token_at :: "string \<Rightarrow> string \<Rightarrow> nat option" where
  "token_at rbefore s =
     (case if_at rbefore s of
        Some n \<Rightarrow> Some n
      | None \<Rightarrow> (case else_at s of Some n \<Rightarrow> Some n | None \<Rightarrow> fi_at s))"

lemma token_at_positive: "token_at rbefore s = Some n \<Longrightarrow> 0 < n"
  by (auto simp: token_at_def if_at_def else_at_def fi_at_def Let_def
      split: option.splits if_splits)

function finditer :: "string \<Rightarrow> nat \<Rightarrow> string \<Rightarrow> re_match list" where
  "finditer rbefore pos [] = []"
| "finditer rbefore pos (c # cs) =
     (case token_at rbefore (c # cs) of
        None \<Rightarrow> finditer (c # rbefore) (Suc pos) cs
      | Some n \<Rightarrow>
          Match pos (pos + n) (take n (c # cs))
            # finditer (rev (take n (c # cs)) @ rbefore) (pos + n) (drop n (c # cs)))"
  by pat_completeness auto
termination
  by (relation "measure (\<lambda>(rbefore, pos, s). length s)")
     (auto dest: token_at_positive)

declare finditer.simps [simp del]

text \<open>
  The tree of conditionals. A Python node is a dictionary with the keys \<open>kind\<close>, \<open>left\<close>,
  \<open>right\<close> and, once set, \<open>start\<close>, \<open>else\<close>, \<open>end\<close> and \<open>parent\<close>; a key that is not set is
  \<open>None\<close> here. The code keeps a reference \<open>tree\<close> to the node that is open and reaches the
  enclosing nodes through \<open>parent\<close>. The model keeps the open node and the list of its
  ancestors, innermost first, and \<open>tree['parent'] is None\<close> is an empty list of ancestors.
  In the Python code \<open>add_subtree\<close> appends a node to a list of its parent when the node
  is created; the model appends it when the node is closed by \<open>\fi\<close>. The side is the
  same, since the parent gets no \<open>\else\<close> while a child is open, and the position in the
  list is the same, since nothing else is appended to the parent meanwhile.
  \<open>whole_tree\<close> appends the nodes that are still open and gives the tree that hangs on
  \<open>toplevel_tree\<close> in the Python code at that moment.
\<close>

datatype kind = Toplevel | Iffalse | Iftrue | Unknown

datatype tree =
  Node (t_kind: kind) (t_start: "re_match option") (t_else: "re_match option")
       (t_end: "re_match option") (t_left: "tree list") (t_right: "tree list")

definition toplevel_tree :: tree where
  "toplevel_tree = Node Toplevel None None None [] []"

definition new_subtree :: "kind \<Rightarrow> re_match \<Rightarrow> tree" where
  "new_subtree k m = Node k (Some m) None None [] []"

definition add_subtree :: "tree \<Rightarrow> tree \<Rightarrow> tree" where
  "add_subtree t subtree =
     (case t of Node k s e en l r \<Rightarrow>
        if e = None then Node k s e en (l @ [subtree]) r
        else Node k s e en l (r @ [subtree]))"

fun whole_tree :: "tree \<Rightarrow> tree list \<Rightarrow> tree" where
  "whole_tree t [] = t"
| "whole_tree t (p # ps) = whole_tree (add_subtree p t) ps"

definition exceptions :: "string list" where
  "exceptions =
     [''iff'', ''ifpatchable'', ''ifpatchable*'', ''ifbool'', ''iftoggle'', ''ifdef'',
      ''ifcsdef'', ''ifundef'', ''ifcsundef'', ''ifdefmacro'', ''ifcsmacro'',
      ''ifdefparam'', ''ifcsparam'', ''ifcsprefix'', ''ifdefprotected'',
      ''ifcsprotected'', ''ifdefltxprotect'', ''ifcsltxprotect'', ''ifdefempty'',
      ''ifcsempty'', ''ifdefvoid'', ''ifcsvoid'', ''ifdefequal'', ''ifcsequal'',
      ''ifdefstring'', ''ifcsstring'', ''ifdefstrequal'', ''ifcsstrequal'',
      ''ifdefcounter'', ''ifcscounter'', ''ifltxcounter'', ''ifdeflength'',
      ''ifcslength'', ''ifdefdimen'', ''ifcsdimen'', ''ifstrequal'', ''ifstrempty'',
      ''ifblank'', ''ifnumcomp'', ''ifnumequal'', ''ifnumodd'', ''ifdimcomp'',
      ''ifdimequal'', ''ifdimgreater'', ''ifdimless'', ''ifboolexpr'', ''ifboolexpe'',
      ''ifinlist'', ''ifinlistcs'', ''ifrmnum'', ''ifpdfstringunicode'', ''ifthenelse'']"

text \<open>
  \<^verbatim>\<open>
  def print_tree(tree, indent, write):
    if 'start' in tree:
      write(' ' * indent + tree['start'].group() + '\n')
    for subtree in tree['left']:
      print_tree(subtree, indent + 2, write)
    if 'else' in tree:
      write(' ' * indent + tree['else'].group() + '\n')
    for subtree in tree['right']:
      print_tree(subtree, indent + 2)
    if 'end' in tree:
      write(' ' * indent + tree['end'].group() + '\n')
  \<close>
  The call in the loop over \<open>tree['right']\<close> leaves out the argument \<open>write\<close>: with a
  subtree on the right Python raises \<open>TypeError\<close> there. The result is the text written,
  or the error.
\<close>

fun print_tree :: "tree \<Rightarrow> nat \<Rightarrow> py_error + string"
  and print_trees :: "tree list \<Rightarrow> nat \<Rightarrow> py_error + string" where
  "print_tree (Node k s e en l r) indent =
     (case print_trees l (indent + 2) of
        Inl err \<Rightarrow> Inl err
      | Inr out_left \<Rightarrow>
          (case r of
             [] \<Rightarrow>
               Inr ((case s of None \<Rightarrow> [] | Some m \<Rightarrow> replicate indent CHR '' '' @ m_group m @ [nl])
                    @ out_left
                    @ (case e of None \<Rightarrow> [] | Some m \<Rightarrow> replicate indent CHR '' '' @ m_group m @ [nl])
                    @ (case en of None \<Rightarrow> [] | Some m \<Rightarrow> replicate indent CHR '' '' @ m_group m @ [nl]))
           | subtree # subtrees \<Rightarrow> Inl TypeError))"
| "print_trees [] indent = Inr []"
| "print_trees (t # ts) indent =
     (case print_tree t indent of
        Inl err \<Rightarrow> Inl err
      | Inr out \<Rightarrow> (case print_trees ts indent of Inl err \<Rightarrow> Inl err | Inr outs \<Rightarrow> Inr (out @ outs)))"

definition print_abort :: "string \<Rightarrow> tree \<Rightarrow> py_error + string" where
  "print_abort error_finding root =
     (case print_tree root 9 of
        Inl err \<Rightarrow> Inl err
      | Inr rendering \<Rightarrow>
          Inr (''Warning: Found '' @ error_finding
                 @ ''! Not removing any conditional blocks...'' @ [nl]
               @ ''         This is the matched tree (as built up to the error):'' @ [nl]
               @ rendering
               @ ''         Potentially, you need to supply an exception using''
                 @ '' --if_exceptions'' @ [CHR 0x27] @ ''.'' @ [nl]))"

text \<open>
  One round of the loop \<open>for m in p.finditer(text)\<close>: the round goes on with a new open
  node, or calls \<open>print_abort\<close> and returns the text (\<open>Abort\<close>, with the finding and the
  state), or raises.
\<close>

datatype outcome =
  Continue tree "tree list" | Abort string tree "tree list" | Raise py_error

definition step :: "string list \<Rightarrow> tree \<Rightarrow> tree list \<Rightarrow> re_match \<Rightarrow> outcome" where
  "step excs t parents m =
     (let m_no_space = filter (\<lambda>c. c \<noteq> CHR '' '') (m_group m) in
      if m_no_space = bsl # ''iffalse'' \<or> m_no_space = bsl # ''if0''
      then Continue (new_subtree Iffalse m) (t # parents)
      else if m_no_space = bsl # ''iftrue'' \<or> m_no_space = bsl # ''if1''
      then Continue (new_subtree Iftrue m) (t # parents)
      else if prefix (bsl # ''if'') m_no_space
      then (if tl m_no_space \<in> set excs then Continue t parents
            else Continue (new_subtree Unknown m) (t # parents))
      else if m_no_space = bsl # ''else''
      then (case parents of
              [] \<Rightarrow> Abort (''unmatched '' @ bsl # ''else'') t parents
            | p # ps \<Rightarrow>
                if t_else t \<noteq> None then Abort (''duplicate '' @ bsl # ''else'') t parents
                else Continue (case t of Node k s e en l r \<Rightarrow> Node k s (Some m) en l r) parents)
      else if m_group m = bsl # ''fi''
      then (case parents of
              [] \<Rightarrow> Abort (''unmatched '' @ bsl # ''fi'') t parents
            | p # ps \<Rightarrow>
                Continue (add_subtree p (case t of Node k s e en l r \<Rightarrow> Node k s e (Some m) l r)) ps)
      else Raise RuntimeError)"

fun build :: "string list \<Rightarrow> tree \<Rightarrow> tree list \<Rightarrow> re_match list \<Rightarrow> outcome" where
  "build excs t parents [] = Continue t parents"
| "build excs t parents (m # ms) =
     (case step excs t parents m of
        Continue t' parents' \<Rightarrow> build excs t' parents' ms
      | Abort finding t' parents' \<Rightarrow> Abort finding t' parents'
      | Raise err \<Rightarrow> Raise err)"

text \<open>\<open>traverse_tree\<close> collects \<open>positions_to_delete\<close>; reading a key that is not set
  raises \<open>KeyError\<close>.\<close>

fun traverse_tree :: "tree \<Rightarrow> py_error + (nat \<times> nat) list"
  and traverse_trees :: "tree list \<Rightarrow> py_error + (nat \<times> nat) list" where
  "traverse_tree (Node k s e en l r) =
     (case k of
        Iffalse \<Rightarrow>
          (case e of
             Some me \<Rightarrow>
               (case s of None \<Rightarrow> Inl KeyError | Some ms \<Rightarrow>
                (case traverse_trees r of Inl err \<Rightarrow> Inl err | Inr inner \<Rightarrow>
                 (case en of None \<Rightarrow> Inl KeyError | Some mn \<Rightarrow>
                    Inr ((m_start ms, m_end me) # inner @ [(m_start mn, m_end mn)]))))
           | None \<Rightarrow>
               (case s of None \<Rightarrow> Inl KeyError | Some ms \<Rightarrow>
                (case en of None \<Rightarrow> Inl KeyError | Some mn \<Rightarrow>
                   Inr [(m_start ms, m_end mn)])))
      | Iftrue \<Rightarrow>
          (case e of
             Some me \<Rightarrow>
               (case s of None \<Rightarrow> Inl KeyError | Some ms \<Rightarrow>
                (case traverse_trees l of Inl err \<Rightarrow> Inl err | Inr inner \<Rightarrow>
                 (case en of None \<Rightarrow> Inl KeyError | Some mn \<Rightarrow>
                    Inr ((m_start ms, m_end ms) # inner @ [(m_start me, m_end mn)]))))
           | None \<Rightarrow>
               (case s of None \<Rightarrow> Inl KeyError | Some ms \<Rightarrow>
                (case en of None \<Rightarrow> Inl KeyError | Some mn \<Rightarrow>
                   Inr [(m_start ms, m_end ms), (m_start mn, m_end mn)])))
      | Unknown \<Rightarrow>
          (case traverse_trees l of Inl err \<Rightarrow> Inl err | Inr inner_left \<Rightarrow>
           (case traverse_trees r of Inl err \<Rightarrow> Inl err | Inr inner_right \<Rightarrow>
              Inr (inner_left @ inner_right)))
      | Toplevel \<Rightarrow> Inl ValueError)"
| "traverse_trees [] = Inr []"
| "traverse_trees (t # ts) =
     (case traverse_tree t of Inl err \<Rightarrow> Inl err | Inr ps \<Rightarrow>
      (case traverse_trees ts of Inl err \<Rightarrow> Inl err | Inr qs \<Rightarrow> Inr (ps @ qs)))"

text \<open>
  \<^verbatim>\<open>
  for start, end in reversed(positions_to_delete):
    if end < len(text) and text[end].isspace():
      end_to_del = end + 1
    else:
      end_to_del = end
    text = text[:start] + text[end_to_del:]
  \<close>
  \<open>delete_positions\<close> takes the list already reversed.
\<close>

fun delete_positions :: "(nat \<times> nat) list \<Rightarrow> string \<Rightarrow> string" where
  "delete_positions [] text = text"
| "delete_positions ((start, end) # ps) text =
     delete_positions ps
       (take start text
        @ drop (if end < length text \<and> py_isspace (text ! end) then end + 1 else end) text)"

text \<open>The function returns the text; the model returns the text together with what was
  written to \<open>stderr\<close>, or the exception raised.\<close>

definition simplify_conditional_blocks :: "string \<Rightarrow> string list \<Rightarrow> py_error + string \<times> string" where
  "simplify_conditional_blocks text if_exceptions =
     (case build (exceptions @ if_exceptions) toplevel_tree [] (finditer [] 0 text) of
        Raise err \<Rightarrow> Inl err
      | Abort finding t parents \<Rightarrow>
          (case print_abort finding (whole_tree t parents) of
             Inl err \<Rightarrow> Inl err
           | Inr warning \<Rightarrow> Inr (text, warning))
      | Continue t parents \<Rightarrow>
          (case parents of
             p # ps \<Rightarrow>
               (case t_start t of
                  None \<Rightarrow> Inl KeyError
                | Some m \<Rightarrow>
                    (case print_abort (''unmatched '' @ m_group m) (whole_tree t parents) of
                       Inl err \<Rightarrow> Inl err
                     | Inr warning \<Rightarrow> Inr (text, warning)))
           | [] \<Rightarrow>
               (case traverse_trees (t_left t) of
                  Inl err \<Rightarrow> Inl err
                | Inr positions_to_delete \<Rightarrow>
                    Inr (delete_positions (rev positions_to_delete) text, []))))"







section \<open>Facts about \<open>str_find\<close>\<close>

lemma str_find_Some_less:
  "str_find [c] s = Some p \<Longrightarrow> p < length s \<and> s ! p = c \<and> c \<notin> set (take p s)"
proof (induction s arbitrary: p)
  case Nil
  then show ?case by simp
next
  case (Cons a s)
  show ?case
  proof (cases "a = c")
    case True
    with Cons.prems show ?thesis by simp
  next
    case False
    with Cons.prems obtain q where q: "str_find [c] s = Some q" "p = Suc q"
      by auto
    from Cons.IH [OF q(1)] False q(2) show ?thesis by simp
  qed
qed

lemma str_find_None_notin: "str_find [c] s = None \<Longrightarrow> c \<notin> set s"
  by (induction s) (auto split: if_splits)

lemma percent_check_iff:
  "(case str_find ''%'' line of None \<Rightarrow> True | Some p \<Rightarrow> p > k)
     \<longleftrightarrow> CHR ''%'' \<notin> set (take (Suc k) line)"
proof (cases "str_find ''%'' line")
  case None
  then have "CHR ''%'' \<notin> set line" by (rule str_find_None_notin)
  then have "CHR ''%'' \<notin> set (take (Suc k) line)"
    by (meson in_set_takeD)
  with None show ?thesis by simp
next
  case (Some p)
  from str_find_Some_less [OF Some]
  have p: "p < length line" "line ! p = CHR ''%''" "CHR ''%'' \<notin> set (take p line)"
    by simp_all
  show ?thesis
  proof (cases "p > k")
    case True
    then have "set (take (Suc k) line) \<subseteq> set (take p line)"
      by (simp add: set_take_subset_set_take)
    with p(3) True Some show ?thesis by auto
  next
    case False
    then have "p < Suc k" by simp
    with p(1) have "take (Suc k) line ! p = line ! p" "p < length (take (Suc k) line)"
      by simp_all
    then have "CHR ''%'' \<in> set (take (Suc k) line)"
      using p(2) by (metis nth_mem)
    with False Some show ?thesis by simp
  qed
qed

lemma strip_tex_step:
  "i < length lines \<Longrightarrow>
   strip_tex_loop lines e i =
     (if marker_uncommented e (lines ! i) then take (Suc i) lines
      else strip_tex_loop lines e (Suc i))"
proof -
  assume i: "i < length lines"
  show ?thesis
  proof (cases "str_find e (lines ! i)")
    case None
    with i show ?thesis
      by (subst strip_tex_loop.simps) (simp add: marker_uncommented_def)
  next
    case (Some k)
    from percent_check_iff [where line = "lines ! i" and k = k] Some i show ?thesis
      by (subst strip_tex_loop.simps)
         (auto simp: marker_uncommented_def split: option.splits)
  qed
qed

lemma strip_tex_loop_none:
  "\<forall>j. i \<le> j \<and> j < length lines \<longrightarrow> \<not> marker_uncommented e (lines ! j) \<Longrightarrow>
   strip_tex_loop lines e i = lines"
proof (induction "length lines - i" arbitrary: i)
  case 0
  then show ?case by (subst strip_tex_loop.simps) simp
next
  case (Suc n)
  then have i: "i < length lines" by simp
  from Suc.prems i have "\<not> marker_uncommented e (lines ! i)" by simp
  moreover have "strip_tex_loop lines e (Suc i) = lines"
    using Suc.hyps Suc.prems by (intro Suc.hyps(1)) auto
  ultimately show ?case using strip_tex_step [OF i] by simp
qed

lemma strip_tex_loop_first:
  "i \<le> m \<Longrightarrow> m < length lines \<Longrightarrow> marker_uncommented e (lines ! m) \<Longrightarrow>
   \<forall>j. i \<le> j \<and> j < m \<longrightarrow> \<not> marker_uncommented e (lines ! j) \<Longrightarrow>
   strip_tex_loop lines e i = take (Suc m) lines"
proof (induction "m - i" arbitrary: i)
  case 0
  then have "i = m" by simp
  with 0 show ?case using strip_tex_step [of m lines e] by simp
next
  case (Suc n)
  then have im: "i < m" by simp
  with Suc.prems have i: "i < length lines" by simp
  from Suc.prems im have "\<not> marker_uncommented e (lines ! i)" by simp
  moreover have "strip_tex_loop lines e (Suc i) = take (Suc m) lines"
    using Suc.hyps Suc.prems im by (intro Suc.hyps(1)) auto
  ultimately show ?case using strip_tex_step [OF i] by simp
qed

section \<open>Claims about \<open>_strip_tex_contents\<close>\<close>

text \<open>
  C10, as the specification states it, fails: with the marker \<open>%e\<close> the first line
  contains the marker at index 0 and no \<open>%\<close> stands before index 0, so the claim
  truncates after that line; the code compares \<open>index('%') > index(end_str)\<close>, finds
  \<open>0 > 0\<close> false, and keeps both lines.
\<close>

theorem strip_tex_contents_percent_marker_counterexample:
  "marker_uncommented_before ''%e'' ([''%e'', ''x''] ! 0)
   \<and> strip_tex_contents [''%e'', ''x''] ''%e'' = [''%e'', ''x'']
   \<and> strip_tex_contents [''%e'', ''x''] ''%e'' \<noteq> take (Suc 0) [''%e'', ''x'']"
  by (simp add: strip_tex_contents_def marker_uncommented_before_def strip_tex_step
      marker_uncommented_def strip_tex_loop_none)

text \<open>
  C10, amended: the result is a prefix of the input with every retained line unchanged.
  It is the whole list when no line contains the marker free of a \<open>%\<close> at or before the
  index of the marker's first occurrence, and otherwise \<open>lines[0..m]\<close> for the first such
  line \<open>m\<close>.
\<close>

theorem strip_tex_contents_prefix:
  "((\<forall>j < length lines. \<not> marker_uncommented end_str (lines ! j))
      \<longrightarrow> strip_tex_contents lines end_str = lines)
   \<and> (\<forall>m < length lines.
        marker_uncommented end_str (lines ! m)
        \<and> (\<forall>j < m. \<not> marker_uncommented end_str (lines ! j))
      \<longrightarrow> strip_tex_contents lines end_str = take (Suc m) lines)"
proof (intro conjI impI allI)
  assume "\<forall>j < length lines. \<not> marker_uncommented end_str (lines ! j)"
  then show "strip_tex_contents lines end_str = lines"
    unfolding strip_tex_contents_def by (intro strip_tex_loop_none) simp
next
  fix m
  assume m: "m < length lines"
    and h: "marker_uncommented end_str (lines ! m)
            \<and> (\<forall>j < m. \<not> marker_uncommented end_str (lines ! j))"
  then show "strip_tex_contents lines end_str = take (Suc m) lines"
    unfolding strip_tex_contents_def by (intro strip_tex_loop_first) simp_all
qed

theorem strip_tex_contents_prefix_witness:
  "marker_uncommented ''END'' ([''a'', ''% END'', ''x END % y'', ''z''] ! 2)
   \<and> \<not> marker_uncommented ''END'' ([''a'', ''% END'', ''x END % y'', ''z''] ! 0)
   \<and> \<not> marker_uncommented ''END'' ([''a'', ''% END'', ''x END % y'', ''z''] ! 1)
   \<and> strip_tex_contents [''a'', ''% END'', ''x END % y'', ''z''] ''END''
       = [''a'', ''% END'', ''x END % y'']
   \<and> strip_tex_contents [''a'', ''% END''] ''END'' = [''a'', ''% END'']"
proof -
  let ?ls = "[''a'', ''% END'', ''x END % y'', ''z'']"
  have m2: "marker_uncommented ''END'' (?ls ! 2)"
    by (simp add: marker_uncommented_def)
  have m0: "\<not> marker_uncommented ''END'' (?ls ! 0)"
    by (simp add: marker_uncommented_def)
  have m1: "\<not> marker_uncommented ''END'' (?ls ! 1)"
    by (simp add: marker_uncommented_def)
  have lt: "\<forall>j < 2. \<not> marker_uncommented ''END'' (?ls ! j)"
    using m0 m1 by (simp add: less_Suc_eq numeral_2_eq_2)
  have "2 < length ?ls" by simp
  with m2 lt have a: "strip_tex_contents ?ls ''END'' = take (Suc 2) ?ls"
    using strip_tex_contents_prefix [of ?ls "''END''", THEN conjunct2, rule_format, of 2]
    by blast
  have n: "\<forall>j < length [''a'', ''% END'']. \<not> marker_uncommented ''END'' ([''a'', ''% END''] ! j)"
    by (simp add: marker_uncommented_def less_Suc_eq numeral_2_eq_2)
  have b: "strip_tex_contents [''a'', ''% END''] ''END'' = [''a'', ''% END'']"
    using strip_tex_contents_prefix [of "[''a'', ''% END'']" "''END''", THEN conjunct1] n
    by blast
  have "take (Suc 2) ?ls = [''a'', ''% END'', ''x END % y'']"
    by (simp add: numeral_2_eq_2)
  with a b m0 m1 m2 show ?thesis by simp
qed


section \<open>Facts about the comment stripper\<close>

lemma url_split_nonempty: "url_split s \<noteq> []"
  by (induction s rule: url_split.induct) (auto split: option.splits list.splits)

lemma no_open_across:
  assumes "str_find url_open pre = None" and "pre \<noteq> []" and "x \<notin> set (tl url_open)"
  shows "\<not> prefix url_open (pre @ x # post)"
proof
  assume p: "prefix url_open (pre @ x # post)"
  have np: "\<not> prefix url_open pre"
    using assms(1,2) by (cases pre) (auto split: if_splits)
  from p np obtain us where us: "url_open = pre @ us" "prefix us (x # post)"
    by (auto simp: prefix_append)
  from us(1) np have "us \<noteq> []" by auto
  with us(2) have "x \<in> set us" by (cases us) auto
  moreover from us(1) assms(2) have "tl url_open = tl pre @ us" by (metis tl_append2)
  ultimately have "x \<in> set (tl url_open)" by simp
  with assms(3) show False by simp
qed

lemma url_split_skip:
  "str_find url_open pre = None \<Longrightarrow> x \<notin> set (tl url_open) \<Longrightarrow>
   url_split (pre @ x # post) = (pre @ hd (url_split (x # post))) # tl (url_split (x # post))"
proof (induction pre)
  case Nil
  then show ?case using url_split_nonempty [of "x # post"] by simp
next
  case (Cons c pre)
  from Cons.prems(1) have f: "str_find url_open pre = None"
    by (auto split: if_splits)
  have "\<not> prefix url_open ((c # pre) @ x # post)"
    using Cons.prems by (intro no_open_across) simp_all
  then have "url_at (c # pre @ x # post) = None"
    by (simp add: url_at_def)
  then show ?case using Cons.IH [OF f Cons.prems(2)] url_split_nonempty [of "x # post"]
    by (simp split: list.splits)
qed

lemma find_unescaped_percent_first:
  "CHR ''%'' \<notin> set pre \<Longrightarrow> (pre = [] \<and> \<not> esc) \<or> (pre \<noteq> [] \<and> last pre \<noteq> bsl) \<Longrightarrow>
   find_unescaped_percent esc (pre @ CHR ''%'' # x) = Some (Suc (length pre))"
proof (induction pre arbitrary: esc)
  case Nil
  then show ?case by simp
next
  case (Cons c pre)
  show ?case
  proof (cases "pre = []")
    case True
    with Cons.prems show ?thesis by simp
  next
    case False
    with Cons.prems have "find_unescaped_percent (c = bsl) (pre @ CHR ''%'' # x) = Some (Suc (length pre))"
      by (intro Cons.IH) auto
    with Cons.prems show ?thesis by auto
  qed
qed

lemma find_unescaped_percent_none:
  "CHR ''%'' \<notin> set s \<Longrightarrow> find_unescaped_percent esc s = None"
  by (induction s arbitrary: esc) auto

lemma dropWhile_hd_in:
  "\<exists>c\<in>set pre. \<not> P c \<Longrightarrow> \<exists>d ds. dropWhile P (pre @ y) = d # ds \<and> d \<in> set pre"
proof -
  assume a: "\<exists>c\<in>set pre. \<not> P c"
  then have "dropWhile P (pre @ y) = dropWhile P pre @ y"
    by (auto simp: dropWhile_append1)
  moreover from a have "dropWhile P pre \<noteq> []" by (simp add: dropWhile_eq_Nil_conv)
  then obtain d ds where d: "dropWhile P pre = d # ds" by (cases "dropWhile P pre") auto
  moreover have "d \<in> set pre" using d by (metis list.set_intros(1) set_dropWhileD)
  ultimately show ?thesis by auto
qed

lemma dropWhile_keeps: "x \<in> set xs \<Longrightarrow> \<not> P x \<Longrightarrow> x \<in> set (dropWhile P xs)"
  by (induction xs) auto

lemma lstrip2_hd_in:
  assumes "\<exists>c\<in>set pre. \<not> P c \<and> \<not> Q c"
  shows "\<exists>d ds. dropWhile Q (dropWhile P (pre @ y)) = d # ds \<and> d \<in> set pre"
proof -
  from assms obtain c where c: "c \<in> set pre" "\<not> P c" "\<not> Q c" by auto
  then have 1: "dropWhile P (pre @ y) = dropWhile P pre @ y"
    by (auto simp: dropWhile_append1)
  from c have "c \<in> set (dropWhile P pre)" by (simp add: dropWhile_keeps)
  with c(3) have "\<exists>c\<in>set (dropWhile P pre). \<not> Q c" by auto
  from dropWhile_hd_in [OF this, of y] obtain d ds
    where "dropWhile Q (dropWhile P pre @ y) = d # ds" "d \<in> set (dropWhile P pre)"
    by auto
  with 1 show ?thesis by (metis set_dropWhileD)
qed

lemma url_split_percent_hd: "\<exists>x. hd (url_split (CHR ''%'' # post)) = CHR ''%'' # x"
proof -
  have "url_at (CHR ''%'' # post) = None" by (simp add: url_at_def url_open_def)
  then show ?thesis using url_split_nonempty [of post]
    by (auto split: list.splits)
qed

lemma remove_comments_inline_cut:
  assumes np: "CHR ''%'' \<notin> set pre"
    and nu: "str_find url_open pre = None"
    and ns: "\<exists>c\<in>set pre. \<not> py_isspace c"
    and nb: "last pre \<noteq> bsl"
    and na: "\<not> auto_ignore_search (pre @ CHR ''%'' # post)"
  shows "remove_comments_inline (pre @ CHR ''%'' # post) = pre @ ''%'' @ [nl]"
proof -
  let ?t = "pre @ CHR ''%'' # post"
  from ns have ne: "pre \<noteq> []" by auto
  obtain x where x: "hd (url_split (CHR ''%'' # post)) = CHR ''%'' # x"
    using url_split_percent_hd by blast
  have pu: "CHR ''%'' \<notin> set (tl url_open)" by (simp add: url_open_def)
  have split: "url_split ?t = (pre @ CHR ''%'' # x) # tl (url_split (CHR ''%'' # post))"
    using url_split_skip [OF nu pu, of post] x by simp
  have "str_find url_open pre = None" by fact
  then have "\<not> prefix url_open (pre @ CHR ''%'' # x)"
    using ne pu by (rule no_open_across)
  then have ua: "url_at (pre @ CHR ''%'' # x) = None"
    by (simp add: url_at_def)
  have ws: "\<not> prefix ''%'' (dropWhile py_isspace (pre @ CHR ''%'' # x))"
    using dropWhile_hd_in [OF ns, of "CHR ''%'' # x"] np by auto
  have fu: "find_unescaped_percent False (pre @ CHR ''%'' # x) = Some (Suc (length pre))"
    using np ne nb by (intro find_unescaped_percent_first) auto
  have rc: "remove_comments (pre @ CHR ''%'' # x) = (pre @ ''%'' @ [nl], True)"
    using ws fu by (simp add: remove_comments_def)
  have ss: "strip_segments (url_split ?t) = [pre @ ''%'' @ [nl]]"
    using split ua rc by simp
  have "\<exists>c\<in>set pre. \<not> (c = CHR '' '') \<and> \<not> (c = tab)"
    using ns by (auto simp: py_isspace_def)
  from lstrip2_hd_in [OF this, of "CHR ''%'' # post"] np
  have nc: "\<not> prefix ''%'' (dropWhile (\<lambda>c. c = tab) (dropWhile (\<lambda>c. c = CHR '' '') ?t))"
    by auto
  show ?thesis
    using na nc ss by (simp add: remove_comments_inline_def suffix_to_prefix)
qed


lemma url_at_span:
  assumes "\<forall>c\<in>set arg. c \<noteq> CHR ''{'' \<and> c \<noteq> CHR ''}''"
  shows "url_at (url_open @ arg @ ''}'' @ post) = Some (url_open @ arg @ ''}'', post)"
proof -
  let ?P = "\<lambda>c. c \<noteq> CHR ''{'' \<and> c \<noteq> CHR ''}''"
  have d: "drop 5 (url_open @ arg @ ''}'' @ post) = arg @ CHR ''}'' # post"
    by (simp add: url_open_def)
  have dw: "dropWhile ?P (arg @ CHR ''}'' # post) = CHR ''}'' # post"
    using assms by (simp add: dropWhile_append2)
  have tw: "takeWhile ?P (arg @ CHR ''}'' # post) = arg"
    using assms by (simp add: takeWhile_append2)
  have "prefix url_open (url_open @ arg @ ''}'' @ post)" by simp
  then show ?thesis
    unfolding url_at_def d dw tw by simp
qed

lemma remove_comments_plain:
  assumes "CHR ''%'' \<notin> set s"
  shows "remove_comments s = (s, False)"
proof -
  have "set (dropWhile py_isspace s) \<subseteq> set s" by (auto dest: set_dropWhileD)
  with assms have "\<not> prefix ''%'' (dropWhile py_isspace s)"
    by (auto simp: prefix_def)
  with assms show ?thesis
    by (simp add: remove_comments_def find_unescaped_percent_none)
qed

lemma remove_comments_inline_keeps_url:
  assumes np: "CHR ''%'' \<notin> set pre"
    and nu: "str_find url_open pre = None"
    and ab: "\<forall>c\<in>set arg. c \<noteq> CHR ''{'' \<and> c \<noteq> CHR ''}''"
    and na: "\<not> auto_ignore_search (pre @ url_open @ arg @ ''}'' @ post)"
  shows "prefix (pre @ url_open @ arg @ ''}'')
           (remove_comments_inline (pre @ url_open @ arg @ ''}'' @ post))"
proof -
  let ?U = "url_open @ arg @ ''}''"
  let ?r = "''url{'' @ arg @ ''}'' @ post"
  let ?t = "pre @ url_open @ arg @ ''}'' @ post"
  have t: "?t = pre @ bsl # ?r" by (simp add: url_open_def)
  have U: "url_open @ arg @ ''}'' @ post = bsl # ?r" by (simp add: url_open_def)
  have ua: "url_at (bsl # ?r) = Some (?U, post)"
    by (simp only: U [symmetric] url_at_span [OF ab])
  have s1: "url_split (bsl # ?r) = [] # ?U # url_split post"
    using ua by simp
  have nb: "bsl \<notin> set (tl url_open)" by (simp add: url_open_def)
  have split: "url_split ?t = pre # ?U # url_split post"
    unfolding t using url_split_skip [OF nu nb, of ?r] s1 by simp
  have up: "url_at pre = None"
  proof (cases pre)
    case Nil
    then show ?thesis by (simp add: url_at_def url_open_def)
  next
    case (Cons c cs)
    with nu have "\<not> prefix url_open pre" by (auto split: if_splits)
    then show ?thesis by (simp add: url_at_def)
  qed
  have uu: "url_at ?U \<noteq> None"
    using url_at_span [OF ab, of "[]"] by simp
  have ss: "strip_segments (url_split ?t) = pre # ?U # strip_segments (url_split post)"
    unfolding split using up uu remove_comments_plain [OF np] by simp
  have "\<exists>c\<in>set (pre @ [bsl]). \<not> (c = CHR '' '') \<and> \<not> (c = tab)" by simp
  from lstrip2_hd_in [OF this, of ?r] np
  have nc: "\<not> prefix ''%'' (dropWhile (\<lambda>c. c = tab) (dropWhile (\<lambda>c. c = CHR '' '') ?t))"
    unfolding t by auto
  show ?thesis
    using na nc ss unfolding remove_comments_inline_def Let_def
    by (auto simp: prefix_def)
qed

section \<open>Claims about \<open>_remove_comments_inline\<close>\<close>

text \<open>
  C4, as the specification states it, fails: the line \<open>text % comment\<close> is cut after the
  comment character, not before it, so the result is \<open>text %\<close> and a newline.
\<close>

theorem remove_comments_inline_keeps_percent_counterexample:
  "remove_comments_inline ''text % comment'' = ''text %'' @ [nl]
   \<and> remove_comments_inline ''text % comment'' \<noteq> ''text'' @ [nl]
   \<and> remove_comments_inline (''text % comment'' @ [nl]) \<noteq> ''text'' @ [nl]"
  by (simp add: remove_comments_inline_def auto_ignore_at_def url_at_def url_open_def
      remove_comments_def py_isspace_def Let_def suffix_to_prefix)

text \<open>
  C4, amended, for ASCII lines without auto-ignore marker. (1) A line \<open>pre % post\<close>, where
  \<open>pre\<close> has no \<open>%\<close> and no \<open>\url{\<close>, has a character that is no space and does not end
  with a backslash, becomes \<open>pre\<close>, the \<open>%\<close> and a newline. (2) A line that starts with \<open>%\<close>
  after its leading spaces and then its leading tabs becomes the empty string. (3) A
  span \<open>\url{arg}\<close> whose argument has no brace, after a text with no \<open>%\<close> and no \<open>\url{\<close>,
  is kept whole, with every \<open>%\<close> in \<open>arg\<close>.
\<close>

theorem remove_comments_inline_cases:
  "(ascii (pre @ CHR ''%'' # post) \<and> CHR ''%'' \<notin> set pre \<and> str_find url_open pre = None
      \<and> (\<exists>c\<in>set pre. \<not> py_isspace c)
      \<and> last pre \<noteq> bsl \<and> \<not> auto_ignore_search (pre @ CHR ''%'' # post)
      \<longrightarrow> remove_comments_inline (pre @ CHR ''%'' # post) = pre @ ''%'' @ [nl])
   \<and> (ascii line \<and> \<not> auto_ignore_search line
      \<and> prefix ''%'' (dropWhile (\<lambda>c. c = tab) (dropWhile (\<lambda>c. c = CHR '' '') line))
      \<longrightarrow> remove_comments_inline line = [])
   \<and> (ascii (before @ url_open @ arg @ ''}'' @ after)
      \<and> CHR ''%'' \<notin> set before \<and> str_find url_open before = None
      \<and> (\<forall>c\<in>set arg. c \<noteq> CHR ''{'' \<and> c \<noteq> CHR ''}'')
      \<and> \<not> auto_ignore_search (before @ url_open @ arg @ ''}'' @ after)
      \<longrightarrow> prefix (before @ url_open @ arg @ ''}'')
            (remove_comments_inline (before @ url_open @ arg @ ''}'' @ after)))"
proof (intro conjI impI)
  assume "ascii (pre @ CHR ''%'' # post) \<and> CHR ''%'' \<notin> set pre \<and> str_find url_open pre = None
      \<and> (\<exists>c\<in>set pre. \<not> py_isspace c)
      \<and> last pre \<noteq> bsl \<and> \<not> auto_ignore_search (pre @ CHR ''%'' # post)"
  then show "remove_comments_inline (pre @ CHR ''%'' # post) = pre @ ''%'' @ [nl]"
    by (intro remove_comments_inline_cut) simp_all
next
  assume "ascii line \<and> \<not> auto_ignore_search line
      \<and> prefix ''%'' (dropWhile (\<lambda>c. c = tab) (dropWhile (\<lambda>c. c = CHR '' '') line))"
  then show "remove_comments_inline line = []"
    by (simp add: remove_comments_inline_def)
next
  assume "ascii (before @ url_open @ arg @ ''}'' @ after)
      \<and> CHR ''%'' \<notin> set before \<and> str_find url_open before = None
      \<and> (\<forall>c\<in>set arg. c \<noteq> CHR ''{'' \<and> c \<noteq> CHR ''}'')
      \<and> \<not> auto_ignore_search (before @ url_open @ arg @ ''}'' @ after)"
  then show "prefix (before @ url_open @ arg @ ''}'')
            (remove_comments_inline (before @ url_open @ arg @ ''}'' @ after))"
    by (intro remove_comments_inline_keeps_url) simp_all
qed

theorem remove_comments_inline_cases_witness:
  "remove_comments_inline (''text '' @ CHR ''%'' # '' comment'') = ''text '' @ ''%'' @ [nl]
   \<and> remove_comments_inline ''  % comment'' = []
   \<and> prefix (''see '' @ url_open @ ''http://x%y'' @ ''}'')
        (remove_comments_inline (''see '' @ url_open @ ''http://x%y'' @ ''}'' @ '' z % c''))"
proof -
  have a1: "ascii (''text '' @ CHR ''%'' # '' comment'')
      \<and> CHR ''%'' \<notin> set ''text '' \<and> str_find url_open ''text '' = None
      \<and> (\<exists>c\<in>set ''text ''. \<not> py_isspace c) \<and> last ''text '' \<noteq> bsl
      \<and> \<not> auto_ignore_search (''text '' @ CHR ''%'' # '' comment'')"
    by (simp add: url_open_def py_isspace_def auto_ignore_at_def ascii_def is_ascii_def)
  have a2: "ascii ''  % comment'' \<and> \<not> auto_ignore_search ''  % comment''
      \<and> prefix ''%'' (dropWhile (\<lambda>c. c = tab) (dropWhile (\<lambda>c. c = CHR '' '') ''  % comment''))"
    by (simp add: auto_ignore_at_def ascii_def is_ascii_def)
  have a3: "ascii (''see '' @ url_open @ ''http://x%y'' @ ''}'' @ '' z % c'')
      \<and> CHR ''%'' \<notin> set ''see '' \<and> str_find url_open ''see '' = None
      \<and> (\<forall>c\<in>set ''http://x%y''. c \<noteq> CHR ''{'' \<and> c \<noteq> CHR ''}'')
      \<and> \<not> auto_ignore_search (''see '' @ url_open @ ''http://x%y'' @ ''}'' @ '' z % c'')"
    by (simp add: url_open_def auto_ignore_at_def ascii_def is_ascii_def)
  note t = remove_comments_inline_cases [of "''text ''" "'' comment''" "''  % comment''"
      "''see ''" "''http://x%y''" "'' z % c''"]
  from t a1 have c1: "remove_comments_inline (''text '' @ CHR ''%'' # '' comment'')
      = ''text '' @ ''%'' @ [nl]" by blast
  from t a2 have c2: "remove_comments_inline ''  % comment'' = []" by blast
  from t a3 have c3: "prefix (''see '' @ url_open @ ''http://x%y'' @ ''}'')
        (remove_comments_inline (''see '' @ url_open @ ''http://x%y'' @ ''}'' @ '' z % c''))"
    by blast
  from c1 c2 c3 show ?thesis by blast
qed

text \<open>A \<open>%\<close> in a \<open>\url\<close> argument that itself contains braces is not exempted: no span
  matches, and the line is cut after that \<open>%\<close>.\<close>

lemma remove_comments_inline_nested_braces:
  "remove_comments_inline (url_open @ ''a{b}%c} d'') = url_open @ ''a{b}%'' @ [nl]"
  by (simp add: remove_comments_inline_def auto_ignore_at_def url_at_def url_open_def
      remove_comments_def py_isspace_def Let_def suffix_to_prefix)

text \<open>
  C9, as the specification states it, fails: a line that is a comment from its start is
  mapped to the empty string, which does not end with a newline.
\<close>

theorem remove_comments_inline_empty_counterexample:
  "remove_comments_inline (''% comment'' @ [nl]) = []
   \<and> \<not> suffix [nl] (remove_comments_inline (''% comment'' @ [nl]))"
  by (simp add: remove_comments_inline_def auto_ignore_at_def)

text \<open>
  C9, amended: for every ASCII line that has no auto-ignore marker and does not start
  with \<open>%\<close> after its leading spaces and then its leading tabs, the returned string ends
  with a newline character or with the two characters backslash and \<open>n\<close>.
\<close>

theorem remove_comments_inline_ends_with_newline:
  "ascii line \<Longrightarrow> \<not> auto_ignore_search line \<Longrightarrow>
   \<not> prefix ''%'' (dropWhile (\<lambda>c. c = tab) (dropWhile (\<lambda>c. c = CHR '' '') line)) \<Longrightarrow>
   suffix [nl] (remove_comments_inline line)
   \<or> suffix [bsl, CHR ''n''] (remove_comments_inline line)"
  unfolding remove_comments_inline_def Let_def by auto

theorem remove_comments_inline_ends_with_newline_witness:
  "ascii ''Foo'' \<and> \<not> auto_ignore_search ''Foo''
   \<and> \<not> prefix ''%'' (dropWhile (\<lambda>c. c = tab) (dropWhile (\<lambda>c. c = CHR '' '') ''Foo''))
   \<and> remove_comments_inline ''Foo'' = ''Foo'' @ [nl]
   \<and> (suffix [nl] (remove_comments_inline ''Foo'')
      \<or> suffix [bsl, CHR ''n''] (remove_comments_inline ''Foo''))"
proof -
  have h0: "ascii ''Foo''" by (simp add: ascii_def is_ascii_def)
  have h1: "\<not> auto_ignore_search ''Foo''" by (simp add: auto_ignore_at_def)
  have h2: "\<not> prefix ''%'' (dropWhile (\<lambda>c. c = tab) (dropWhile (\<lambda>c. c = CHR '' '') ''Foo''))"
    by simp
  have v: "remove_comments_inline ''Foo'' = ''Foo'' @ [nl]"
    by (simp add: remove_comments_inline_def auto_ignore_at_def url_at_def url_open_def
        remove_comments_def py_isspace_def Let_def suffix_to_prefix)
  from remove_comments_inline_ends_with_newline [OF h0 h1 h2] h0 h1 h2 v show ?thesis by blast
qed

section \<open>Claims about \<open>_search_reference\<close>\<close>

lemmas search_reference_defs = search_reference_def reference_pattern_def
  filename_regex_def parent_names_reversed_def path_parts_def path_stem_def
  path_suffix_def path_name_def str_rfind_def os_sep_def fold_case_def re_space_def

lemma plots_fig_loose_bare: "search_reference ''plots/fig.pdf'' ''{plots/fig}'' False"
  by (simp add: search_reference_defs)

lemma plots_fig_loose_full: "search_reference ''plots/fig.pdf'' ''{plots/fig.pdf}'' False"
  by (simp add: search_reference_defs)

lemma plots_fig_loose_upper: "search_reference ''plots/fig.pdf'' ''{FIG.PDF}'' False"
  by (simp add: search_reference_defs)

lemma plots_fig_strict_full: "search_reference ''plots/fig.pdf'' ''{plots/fig.pdf}'' True"
  by (simp add: search_reference_defs)

lemma plots_fig_strict_upper_full:
  "search_reference ''plots/fig.pdf'' ''{PLOTS/FIG.PDF}'' True"
  by (simp add: search_reference_defs)

lemma plots_fig_strict_bare: "\<not> search_reference ''plots/fig.pdf'' ''{plots/fig}'' True"
  by (simp add: search_reference_defs)

lemma plots_fig_strict_upper: "\<not> search_reference ''plots/fig.pdf'' ''{FIG.PDF}'' True"
  by (simp add: search_reference_defs)

text \<open>
  C7: for the candidate \<open>plots/fig.pdf\<close>, the matcher in non-strict mode finds a reference
  in each of \<open>{plots/fig}\<close>, \<open>{plots/fig.pdf}\<close> and \<open>{FIG.PDF}\<close>; in strict mode it finds
  one in \<open>{plots/fig.pdf}\<close>, also in upper case, and none in \<open>{plots/fig}\<close> or \<open>{FIG.PDF}\<close>.
\<close>

theorem search_reference_plots_fig:
  "search_reference ''plots/fig.pdf'' ''{plots/fig}'' False
   \<and> search_reference ''plots/fig.pdf'' ''{plots/fig.pdf}'' False
   \<and> search_reference ''plots/fig.pdf'' ''{FIG.PDF}'' False
   \<and> search_reference ''plots/fig.pdf'' ''{plots/fig.pdf}'' True
   \<and> search_reference ''plots/fig.pdf'' ''{PLOTS/FIG.PDF}'' True
   \<and> \<not> search_reference ''plots/fig.pdf'' ''{plots/fig}'' True
   \<and> \<not> search_reference ''plots/fig.pdf'' ''{FIG.PDF}'' True"
  using plots_fig_loose_bare plots_fig_loose_full plots_fig_loose_upper
    plots_fig_strict_full plots_fig_strict_upper_full plots_fig_strict_bare
    plots_fig_strict_upper
  by blast

section \<open>Facts about the reference closure\<close>

lemma closure_pass_cong:
  assumes "set fs = set fs'"
  shows "closure_pass contents R fs N = closure_pass contents R fs' N"
proof -
  from assms have "fs \<noteq> [] \<longleftrightarrow> fs' \<noteq> []" by auto
  with assms show ?thesis by (simp add: closure_pass_eq)
qed

lemma closure_loop_cong:
  "set fs = set fs' \<Longrightarrow>
   closure_loop contents fs R n = closure_loop contents fs' R n"
proof (induction contents fs R n rule: closure_loop.induct)
  case (1 contents fs referenced passes)
  have p: "closure_pass contents referenced fs' referenced
           = closure_pass contents referenced fs referenced"
    using "1.prems" by (intro closure_pass_cong) simp
  show ?case
  proof (cases "closure_pass contents referenced fs referenced")
    case (Inl e)
    with p show ?thesis
      by (simp add: closure_loop.simps [of contents fs] closure_loop.simps [of contents fs'])
  next
    case (Inr N)
    show ?thesis
    proof (cases "referenced = N")
      case True
      with Inr p show ?thesis
        by (simp add: closure_loop.simps [of contents fs] closure_loop.simps [of contents fs'])
    next
      case False
      from "1.IH" [OF Inr False "1.prems"]
      have "closure_loop contents fs N (Suc passes) = closure_loop contents fs' N (Suc passes)" .
      with Inr p False show ?thesis
        by (simp add: closure_loop.simps [of contents fs referenced]
            closure_loop.simps [of contents fs' referenced])
    qed
  qed
qed


lemma stem_at_plain:
  "CHR ''.'' \<notin> set stem \<Longrightarrow> stem_at stem s = Some r \<longleftrightarrow> s = stem @ r"
proof (induction stem s rule: stem_at.induct)
  case (1 s)
  then show ?case by auto
next
  case (2 p ps)
  then show ?case by simp
next
  case (3 p ps c cs)
  then show ?case by auto
qed

lemma reference_at_plain:
  "CHR ''.'' \<notin> set stem \<Longrightarrow>
   reference_at stem s \<longleftrightarrow> (\<exists>d v. s = stem @ d # v \<and> (d = CHR ''.'' \<or> d = CHR ''}''))"
proof -
  assume a: "CHR ''.'' \<notin> set stem"
  show ?thesis
  proof (cases "stem_at stem s")
    case None
    with a have "\<not> (\<exists>r. s = stem @ r)" by (metis option.distinct(1) stem_at_plain)
    with None show ?thesis by (auto simp: reference_at_def)
  next
    case (Some r)
    with a have s: "s = stem @ r" by (simp add: stem_at_plain)
    with Some show ?thesis by (cases r) (auto simp: reference_at_def)
  qed
qed

lemma reference_search_plain:
  "CHR ''.'' \<notin> set stem \<Longrightarrow>
   reference_search w stem s \<longleftrightarrow>
     (\<exists>u d v. s = u @ stem @ d # v \<and> (d = CHR ''.'' \<or> d = CHR ''}'')
        \<and> (if u = [] then \<not> w else \<not> is_word (last u)))"
proof (induction s arbitrary: w)
  case Nil
  then show ?case by simp
next
  case (Cons c cs)
  let ?R = "\<lambda>w s. \<exists>u d v. s = u @ stem @ d # v \<and> (d = CHR ''.'' \<or> d = CHR ''}'')
        \<and> (if u = [] then \<not> w else \<not> is_word (last u))"
  have at: "reference_at stem (c # cs)
      \<longleftrightarrow> (\<exists>d v. c # cs = stem @ d # v \<and> (d = CHR ''.'' \<or> d = CHR ''}''))"
    using Cons.prems by (rule reference_at_plain)
  have ih: "reference_search (is_word c) stem cs \<longleftrightarrow> ?R (is_word c) cs"
    using Cons.prems by (rule Cons.IH)
  have split: "?R w (c # cs) \<longleftrightarrow>
      (\<not> w \<and> (\<exists>d v. c # cs = stem @ d # v \<and> (d = CHR ''.'' \<or> d = CHR ''}'')))
      \<or> ?R (is_word c) cs"
  proof
    assume "?R w (c # cs)"
    then obtain u d v where h: "c # cs = u @ stem @ d # v" "d = CHR ''.'' \<or> d = CHR ''}''"
      "if u = [] then \<not> w else \<not> is_word (last u)" by blast
    show "(\<not> w \<and> (\<exists>d v. c # cs = stem @ d # v \<and> (d = CHR ''.'' \<or> d = CHR ''}'')))
      \<or> ?R (is_word c) cs"
    proof (cases u)
      case Nil
      with h show ?thesis by auto
    next
      case (Cons a u')
      with h(1) have e: "a = c" "cs = u' @ stem @ d # v" by simp_all
      have "if u' = [] then \<not> is_word c else \<not> is_word (last u')"
        using h(3) Cons e(1) by (cases "u' = []") auto
      with e(2) h(2) have "?R (is_word c) cs" by blast
      then show ?thesis by simp
    qed
  next
    assume "(\<not> w \<and> (\<exists>d v. c # cs = stem @ d # v \<and> (d = CHR ''.'' \<or> d = CHR ''}'')))
      \<or> ?R (is_word c) cs"
    then show "?R w (c # cs)"
    proof
      assume "\<not> w \<and> (\<exists>d v. c # cs = stem @ d # v \<and> (d = CHR ''.'' \<or> d = CHR ''}''))"
      then obtain d v where "c # cs = [] @ stem @ d # v" "d = CHR ''.'' \<or> d = CHR ''}''" "\<not> w"
        by auto
      then show ?thesis by (metis (full_types))
    next
      assume "?R (is_word c) cs"
      then obtain u d v where h: "cs = u @ stem @ d # v" "d = CHR ''.'' \<or> d = CHR ''}''"
        "if u = [] then \<not> is_word c else \<not> is_word (last u)" by blast
      have "c # cs = (c # u) @ stem @ d # v" using h(1) by simp
      moreover have "if c # u = [] then \<not> w else \<not> is_word (last (c # u))"
        using h(3) by (cases "u = []") auto
      ultimately show ?thesis using h(2) by blast
    qed
  qed
  have step: "reference_search w stem (c # cs)
      \<longleftrightarrow> (\<not> w \<and> reference_at stem (c # cs)) \<or> reference_search (is_word c) stem cs"
    by simp
  show ?case
    by (simp only: step at ih split)
qed



lemma mentions_plain:
  assumes "CHR ''.'' \<notin> set (fst (splitext f))"
  shows "mentions contents r f \<longleftrightarrow>
     (\<exists>ls u d v. contents r = Some ls \<and> join_lines ls = u @ fst (splitext f) @ d # v
        \<and> (d = CHR ''.'' \<or> d = CHR ''}'') \<and> (u = [] \<or> \<not> is_word (last u)))"
proof (cases "contents r")
  case None
  then show ?thesis by (simp add: mentions_def)
next
  case (Some ls)
  have "reference_search False (fst (splitext f)) (join_lines ls) \<longleftrightarrow>
     (\<exists>u d v. join_lines ls = u @ fst (splitext f) @ d # v
        \<and> (d = CHR ''.'' \<or> d = CHR ''}'') \<and> (if u = [] then \<not> False else \<not> is_word (last u)))"
    using assms by (rule reference_search_plain)
  also have "\<dots> \<longleftrightarrow> (\<exists>u d v. join_lines ls = u @ fst (splitext f) @ d # v
        \<and> (d = CHR ''.'' \<or> d = CHR ''}'') \<and> (u = [] \<or> \<not> is_word (last u)))"
    by (intro ex_cong1 arg_cong2 [where f = "(\<and>)"] refl) auto
  finally show ?thesis using Some by (simp add: mentions_def)
qed

lemma splitext_sec_intro: "splitext ''sec/intro.tex'' = (''sec/intro'', ''.tex'')"
  by (simp add: splitext_def rfind_index_def str_rfind_def)

lemma splitext_main: "splitext ''main.tex'' = (''main'', ''.tex'')"
  by (simp add: splitext_def rfind_index_def str_rfind_def)

lemma regex_plain_no_dot: "regex_plain s \<Longrightarrow> CHR ''.'' \<notin> set s"
  by (auto simp: regex_plain_def regex_special_def list_all_iff)

section \<open>Claims about \<open>_keep_only_referenced_tex\<close>\<close>

text \<open>
  C1, as the specification states it, fails: the name searched for is
  \<open>os.path.splitext(fn)[0]\<close>, the relative path without its extension, directories
  included. The file \<open>sec/intro.tex\<close> has the basename-without-extension \<open>intro\<close>, which
  stands in \<open>\input{intro}\<close> after the non-word character \<open>{\<close> and before \<open>}\<close>, and yet one
  pass from \<open>main.tex\<close> does not add the file.
\<close>

theorem closure_pass_directory_counterexample:
  "basename_without_extension ''sec/intro.tex'' = ''intro''
   \<and> join_lines [bsl # ''input{intro}'']
       = (bsl # ''input{'') @ basename_without_extension ''sec/intro.tex'' @ CHR ''}'' # []
   \<and> \<not> is_word (last (bsl # ''input{''))
   \<and> closure_pass [''main.tex'' \<mapsto> [bsl # ''input{intro}'']] {''main.tex''}
         [''main.tex'', ''sec/intro.tex''] {''main.tex''} = Inr {''main.tex''}"
proof -
  let ?c = "[''main.tex'' \<mapsto> [bsl # ''input{intro}'']]"
  have b: "basename_without_extension ''sec/intro.tex'' = ''intro''"
    by (simp add: basename_without_extension_def basename_def splitext_def rfind_index_def
        str_rfind_def)
  have w: "\<not> is_word (last (bsl # ''input{''))" by (simp add: is_word_def)
  have m1: "\<not> mentions ?c ''main.tex'' ''main.tex''"
    by (simp add: mentions_def splitext_main reference_at_def is_word_def)
  have m2: "\<not> mentions ?c ''main.tex'' ''sec/intro.tex''"
    by (simp add: mentions_def splitext_sec_intro reference_at_def is_word_def)
  have s1: "scan_referenced ?c {''main.tex''} ''main.tex'' = Inr False"
    by (simp add: scan_referenced_def m1)
  have s2: "scan_referenced ?c {''main.tex''} ''sec/intro.tex'' = Inr False"
    by (simp add: scan_referenced_def m2)
  have p: "closure_pass ?c {''main.tex''} [''main.tex'', ''sec/intro.tex''] {''main.tex''}
      = Inr {''main.tex''}"
    by (simp add: s1 s2)
  from b w p show ?thesis by simp
qed

text \<open>
  C1, amended: when the relative path of every file of the file set, without its
  extension, is ASCII text without regular-expression metacharacters, and every member
  of the Required set \<open>R\<close> has ASCII contents, one pass returns a set that contains a file
  \<open>f\<close> of the file set exactly when \<open>f\<close> is already in \<open>R\<close> or the content of some \<open>r\<close> in \<open>R\<close>
  contains the relative path of \<open>f\<close> without its extension, directory components included,
  not preceded by a word character and immediately followed by \<open>.\<close> or \<open>}\<close>.
\<close>

theorem closure_pass_adds_exactly:
  assumes "R \<subseteq> dom contents" and "f \<in> set fs"
    and "\<forall>g\<in>set fs. regex_plain (fst (splitext g))"
    and "\<forall>r\<in>R. \<forall>ls. contents r = Some ls \<longrightarrow> ascii (join_lines ls)"
  shows "\<exists>N. closure_pass contents R fs R = Inr N \<and>
     (f \<in> N \<longleftrightarrow> f \<in> R \<or>
        (\<exists>r\<in>R. \<exists>ls u d v. contents r = Some ls
            \<and> join_lines ls = u @ fst (splitext f) @ d # v
            \<and> (d = CHR ''.'' \<or> d = CHR ''}'') \<and> (u = [] \<or> \<not> is_word (last u))))"
proof -
  let ?N = "R \<union> {g \<in> set fs. \<exists>r\<in>R. mentions contents r g}"
  from assms(2,3) have "regex_plain (fst (splitext f))" by blast
  then have nd: "CHR ''.'' \<notin> set (fst (splitext f))" by (rule regex_plain_no_dot)
  from assms(1) have "\<not> (\<exists>r\<in>R. contents r = None)" by auto
  then have p: "closure_pass contents R fs R = Inr ?N" by (simp add: closure_pass_eq)
  have "f \<in> ?N \<longleftrightarrow> f \<in> R \<or> (\<exists>r\<in>R. mentions contents r f)"
    using assms(2) by auto
  then have "f \<in> ?N \<longleftrightarrow> f \<in> R \<or>
        (\<exists>r\<in>R. \<exists>ls u d v. contents r = Some ls
            \<and> join_lines ls = u @ fst (splitext f) @ d # v
            \<and> (d = CHR ''.'' \<or> d = CHR ''}'') \<and> (u = [] \<or> \<not> is_word (last u)))"
    by (simp only: mentions_plain [OF nd])
  with p show ?thesis by blast
qed

theorem closure_pass_adds_exactly_witness:
  "{''main.tex''} \<subseteq> dom [''main.tex'' \<mapsto> [bsl # ''input{sec/intro}'']]
   \<and> ''sec/intro.tex'' \<in> set [''main.tex'', ''sec/intro.tex'']
   \<and> regex_plain (fst (splitext ''main.tex''))
   \<and> regex_plain (fst (splitext ''sec/intro.tex''))
   \<and> ascii (join_lines [bsl # ''input{sec/intro}''])
   \<and> (\<exists>N. closure_pass [''main.tex'' \<mapsto> [bsl # ''input{sec/intro}'']] {''main.tex''}
            [''main.tex'', ''sec/intro.tex''] {''main.tex''} = Inr N \<and>
     (''sec/intro.tex'' \<in> N \<longleftrightarrow> ''sec/intro.tex'' \<in> {''main.tex''} \<or>
        (\<exists>r\<in>{''main.tex''}. \<exists>ls u d v.
            [''main.tex'' \<mapsto> [bsl # ''input{sec/intro}'']] r = Some ls
            \<and> join_lines ls = u @ fst (splitext ''sec/intro.tex'') @ d # v
            \<and> (d = CHR ''.'' \<or> d = CHR ''}'') \<and> (u = [] \<or> \<not> is_word (last u)))))"
proof -
  have h1: "{''main.tex''} \<subseteq> dom [''main.tex'' \<mapsto> [bsl # ''input{sec/intro}'']]"
    by simp
  have h2: "''sec/intro.tex'' \<in> set [''main.tex'', ''sec/intro.tex'']" by simp
  have p1: "regex_plain (fst (splitext ''main.tex''))"
    by (simp add: splitext_main regex_plain_def regex_special_def is_ascii_def)
  have p2: "regex_plain (fst (splitext ''sec/intro.tex''))"
    by (simp add: splitext_sec_intro regex_plain_def regex_special_def is_ascii_def)
  from p1 p2 have h3: "\<forall>g\<in>set [''main.tex'', ''sec/intro.tex'']. regex_plain (fst (splitext g))"
    by simp
  have a: "ascii (join_lines [bsl # ''input{sec/intro}''])"
    by (simp add: ascii_def is_ascii_def)
  then have h4: "\<forall>r\<in>{''main.tex''}. \<forall>ls.
      [''main.tex'' \<mapsto> [bsl # ''input{sec/intro}'']] r = Some ls \<longrightarrow> ascii (join_lines ls)"
    by simp
  from closure_pass_adds_exactly [OF h1 h2 h3 h4] h1 h2 p1 p2 a show ?thesis by blast
qed

text \<open>
  C5: the result of the closure, and the number of passes it makes, do not depend on the
  order in which the file set is enumerated: two lists with the same elements, so in
  particular a list and any permutation of it, give the same result for every contents
  and every starting set.
\<close>

theorem closure_loop_order_independent:
  assumes "mset fs' = mset fs"
  shows "closure_loop contents fs' R n = closure_loop contents fs R n"
proof -
  from assms have "set fs' = set fs" by (rule mset_eq_setD)
  then show ?thesis by (rule closure_loop_cong)
qed

theorem closure_loop_order_independent_witness:
  "mset [''sec/intro.tex'', ''main.tex''] = mset [''main.tex'', ''sec/intro.tex'']
   \<and> closure_loop [''main.tex'' \<mapsto> [bsl # ''input{sec/intro}''], ''sec/intro.tex'' \<mapsto> [''text'']]
        [''sec/intro.tex'', ''main.tex''] {''main.tex''} 0
     = closure_loop [''main.tex'' \<mapsto> [bsl # ''input{sec/intro}''], ''sec/intro.tex'' \<mapsto> [''text'']]
        [''main.tex'', ''sec/intro.tex''] {''main.tex''} 0"
proof -
  have h: "mset [''sec/intro.tex'', ''main.tex''] = mset [''main.tex'', ''sec/intro.tex'']"
    by simp
  from closure_loop_order_independent [OF h] h show ?thesis by blast
qed




section \<open>Facts about the conditional resolver\<close>












lemma finditer_token:
  "token_at rbefore s = Some n \<Longrightarrow>
   finditer rbefore pos s
     = Match pos (pos + n) (take n s) # finditer (rev (take n s) @ rbefore) (pos + n) (drop n s)"
  by (cases s) (simp_all add: finditer.simps token_at_def if_at_def else_at_def fi_at_def)





lemma token_fi: "token_at rbefore (bsl # ''fi'') = Some 3"
  by (simp add: token_at_def if_at_def else_at_def fi_at_def)


lemma finditer_empty_pos:
  "finditer rbefore p s = [] \<Longrightarrow> finditer rbefore q s = []"
proof (induction s arbitrary: rbefore p q)
  case Nil
  then show ?case by (simp add: finditer.simps)
next
  case (Cons c cs)
  show ?case
  proof (cases "token_at rbefore (c # cs)")
    case None
    with Cons.prems have "finditer (c # rbefore) (Suc p) cs = []"
      by (simp add: finditer.simps)
    then have "finditer (c # rbefore) (Suc q) cs = []" by (rule Cons.IH)
    with None show ?thesis by (simp add: finditer.simps)
  next
    case (Some n)
    with Cons.prems show ?thesis by (simp add: finditer.simps)
  qed
qed





















section \<open>Claims about \<open>_simplify_conditional_blocks\<close>\<close>




text \<open>
  C3 holds of the text of the function, not of its code: when the tree built up to the
  error has a node with a subtree after its \<open>\else\<close>, \<open>print_tree\<close> is called without its
  argument \<open>write\<close> and the function raises \<open>TypeError\<close> instead of returning the text. Here
  the second \<open>\iftrue\<close> is closed, the first is not.
\<close>

theorem simplify_conditional_blocks_abort_raises:
  "simplify_conditional_blocks
     (bsl # ''iftrue'' @ bsl # ''else'' @ bsl # ''iftrue'' @ bsl # ''fi'') [] = Inl TypeError"
  by code_simp

text \<open>A malformed text whose tree has no such node is returned unchanged, with the
  warning: the lone \<open>\fi\<close>.\<close>

lemma simplify_conditional_blocks_lone_fi:
  "\<exists>warning. simplify_conditional_blocks (bsl # ''fi'') [] = Inr (bsl # ''fi'', warning)
     \<and> warning \<noteq> []"
proof -
  have "finditer [] 0 (bsl # ''fi'') = [Match 0 3 (bsl # ''fi'')]"
    using finditer_token [OF token_fi, of "[]" 0] by (simp add: finditer.simps)
  then show ?thesis
    by (simp add: simplify_conditional_blocks_def step_def toplevel_tree_def print_abort_def)
qed




end
